theory Spec2Isabelle
  imports Main "HOL-Library.Word"
begin

section \<open>A generic connection pool (package pool)\<close>

text \<open>
  The pool of package \<^verbatim>\<open>pool\<close> (\<^verbatim>\<open>src/logger.go\<close>, from line 28 on) is embedded
  with explicit state passing. One record holds the fields of the Go struct together
  with the observable effects of the pool on its collaborators (the logger, the metrics
  instruments, the connect factory and the \<^verbatim>\<open>Close\<close> method of the connections).
  Every run-time panic of the source is a branch that returns \<open>Inl\<close>. The two
  mutexes are not modelled: every operation below is one uninterrupted call, and the
  background ticker is the environment that decides when \<^verbatim>\<open>probe\<close> runs.
\<close>

subsection \<open>Errors, panics and log calls\<close>

datatype error =
  ErrNoConnectFunc | ErrNoHealthyFunc | ErrInvalidConnectionCount | ErrInvalidProbeInterval

datatype abort =
  Failed error         \<comment> \<open>an error value returned to the caller\<close>
  | IndexOutOfRange    \<comment> \<open>run-time panic: index or slice bounds out of range\<close>
  | NilFunctionCall    \<comment> \<open>run-time panic: call of a nil function value\<close>
  | SendBlocks         \<comment> \<open>send on a full channel that nobody receives from\<close>

datatype arg = IntArg int | ErrArg string

datatype log_call = Debugf string "arg list" | Errorf string "arg list"

datatype Logger = stdOutLogger | nullLogger | userLogger nat

definition DefaultLogger :: Logger where
  "DefaultLogger = stdOutLogger"

definition NullLogger :: Logger where
  "NullLogger = nullLogger"

subsection \<open>Configuration\<close>

text \<open>
  The three instruments of \<^verbatim>\<open>PoolMetrics\<close> are external objects; the record says
  which of them are non-nil, and their values live in the pool state below.
\<close>

record PoolMetrics =
  mConnections :: bool
  mConnectionErrors :: bool
  mRetrievals :: bool

text \<open>
  \<^verbatim>\<open>ConnectFunc[T]\<close> is a closure without arguments: it reads and writes a state
  \<open>'s\<close> of its own and returns an error (\<open>Inl\<close>) or a connection. A nil function
  is \<open>None\<close>. \<^verbatim>\<open>time.Duration\<close> is a count of nanoseconds.
\<close>

record ('c, 's) PoolOptions =
  Connect :: "('s \<Rightarrow> (string + 'c) \<times> 's) option"
  Healthy :: "('c \<Rightarrow> bool) option"
  Connections :: int
  ProbeInterval :: int
  Logger :: "Logger option"
  Metrics :: "PoolMetrics option"

text \<open>\<^verbatim>\<open>PoolOptions.validate\<close>, lines 71 to 82.\<close>

definition validate :: "('c, 's) PoolOptions \<Rightarrow> error option" where
  "validate p =
     (if Connect p = None then Some ErrNoConnectFunc
      else if Connections p < 1 then Some ErrInvalidConnectionCount
      else if ProbeInterval p \<le> 0 then Some ErrInvalidProbeInterval
      else None)"

subsection \<open>The pool\<close>

text \<open>
  \<open>closer\<close> is the done flag of the \<^verbatim>\<open>sync.Once\<close>; \<open>closed\<close> says whether the
  channel of capacity one holds a value; \<open>next_u64\<close> is the cursor \<^verbatim>\<open>next\<close>
  and \<open>logger\<close> the field \<^verbatim>\<open>log\<close>.
  \<open>Close_T\<close> is the \<^verbatim>\<open>Close\<close> method of the connection type, \<open>None\<close> for a nil
  error. The remaining fields record effects: the state of the connect factory, the
  calls made to the logger, the connections whose \<^verbatim>\<open>Close\<close> was invoked (in order),
  the number of factory invocations, and the values of the three instruments.
\<close>

record ('c, 's) Pool =
  opts :: "('c, 's) PoolOptions"
  logger :: Logger
  pool :: "'c list"
  closer :: bool
  closed :: bool
  next_u64 :: "64 word"
  Close_T :: "'c \<Rightarrow> string option"
  ext :: 's
  logs :: "log_call list"
  closes :: "'c list"
  connects :: nat
  gauge :: "int option"
  errors :: nat
  retrievals :: nat

definition log_Debugf :: "string \<Rightarrow> arg list \<Rightarrow> ('c, 's) Pool \<Rightarrow> ('c, 's) Pool" where
  "log_Debugf fmt args p = p\<lparr>logs := logs p @ [Debugf fmt args]\<rparr>"

definition log_Errorf :: "string \<Rightarrow> arg list \<Rightarrow> ('c, 's) Pool \<Rightarrow> ('c, 's) Pool" where
  "log_Errorf fmt args p = p\<lparr>logs := logs p @ [Errorf fmt args]\<rparr>"

definition Size :: "('c, 's) Pool \<Rightarrow> int" where
  "Size p = int (length (pool p))"

definition reportSize :: "int \<Rightarrow> ('c, 's) Pool \<Rightarrow> ('c, 's) Pool" where
  "reportSize sz p =
     (case Metrics (opts p) of
        None \<Rightarrow> p
      | Some m \<Rightarrow> if mConnections m then p\<lparr>gauge := Some sz\<rparr> else p)"

definition reportError :: "('c, 's) Pool \<Rightarrow> ('c, 's) Pool" where
  "reportError p =
     (case Metrics (opts p) of
        None \<Rightarrow> p
      | Some m \<Rightarrow> if mConnectionErrors m then p\<lparr>errors := errors p + 1\<rparr> else p)"

definition reportRetrieval :: "('c, 's) Pool \<Rightarrow> ('c, 's) Pool" where
  "reportRetrieval p =
     (case Metrics (opts p) of
        None \<Rightarrow> p
      | Some m \<Rightarrow> if mRetrievals m then p\<lparr>retrievals := retrievals p + 1\<rparr> else p)"

text \<open>\<^verbatim>\<open>Return\<close>, lines 163 to 167.\<close>

definition Return :: "('c, 's) Pool \<Rightarrow> 'c \<Rightarrow> ('c, 's) Pool" where
  "Return p c = p\<lparr>pool := pool p @ [c]\<rparr>"

text \<open>
  \<^verbatim>\<open>removeFromPool\<close>, lines 282 to 286.
  \<^verbatim>\<open>append(p.pool[:index], p.pool[index+1:]...)\<close>: the slice expressions panic unless
  \<open>0 \<le> index < len\<close>.
\<close>

definition removeFromPool :: "int \<Rightarrow> ('c, 's) Pool \<Rightarrow> abort + ('c, 's) Pool" where
  "removeFromPool index p =
     (if 0 \<le> index \<and> index < int (length (pool p))
      then Inr (p\<lparr>pool := take (nat index) (pool p) @ drop (nat index + 1) (pool p)\<rparr>)
      else Inl IndexOutOfRange)"

subsection \<open>Retrieval\<close>

text \<open>
  Go's \<^verbatim>\<open>%\<close> truncates towards zero: the remainder has the sign of the dividend.
  \<^verbatim>\<open>int(n)\<close> reinterprets the 64 bits of the cursor as a signed integer (\<^verbatim>\<open>int\<close> has
  64 bits on the platforms modelled here).
\<close>

definition go_rem :: "int \<Rightarrow> int \<Rightarrow> int" where
  "go_rem a b = sgn a * (\<bar>a\<bar> mod \<bar>b\<bar>)"

definition index_of :: "64 word \<Rightarrow> int \<Rightarrow> int" where
  "index_of n len = go_rem (sint n) len"

text \<open>
  The same index where \<^verbatim>\<open>int\<close> has 32 bits (\<^verbatim>\<open>GOARCH=386\<close>, \<^verbatim>\<open>arm\<close>): the
  conversion keeps the low 32 bits of the cursor. It is used in no function below.
\<close>

definition index_of_32 :: "64 word \<Rightarrow> int \<Rightarrow> int" where
  "index_of_32 n len = go_rem (sint (ucast n :: 32 word)) len"

text \<open>
  \<^verbatim>\<open>Next\<close> (lines 127 to 138) and \<^verbatim>\<open>ExNext\<close> (lines 142 to 160). The result
  \<^verbatim>\<open>(T, bool)\<close> is a pair whose first component is \<open>None\<close> for the zero value of
  \<open>T\<close>. \<^verbatim>\<open>Next\<close> reports the retrieval before it indexes the registry,
  \<^verbatim>\<open>ExNext\<close> after.
\<close>

definition Next :: "('c, 's) Pool \<Rightarrow> abort + ('c option \<times> bool) \<times> ('c, 's) Pool" where
  "Next p =
     (let len = Size p in
      if len = 0 then Inr ((None, False), p)
      else
        let n = next_u64 p + 1;
            p1 = reportRetrieval (p\<lparr>next_u64 := n\<rparr>);
            index = index_of n len
        in if 0 \<le> index \<and> index < int (length (pool p1))
           then Inr ((Some (pool p1 ! nat index), True), p1)
           else Inl IndexOutOfRange)"

definition ExNext :: "('c, 's) Pool \<Rightarrow> abort + ('c option \<times> bool) \<times> ('c, 's) Pool" where
  "ExNext p =
     (let len = Size p in
      if Size p = 0 then Inr ((None, False), p)
      else
        let n = next_u64 p + 1;
            p1 = p\<lparr>next_u64 := n\<rparr>;
            index = index_of n len
        in if 0 \<le> index \<and> index < int (length (pool p1))
           then
             (let conn = pool p1 ! nat index;
                  p2 = reportRetrieval p1
              in case removeFromPool index p2 of
                   Inl a \<Rightarrow> Inl a
                 | Inr p3 \<Rightarrow> Inr ((Some conn, True), p3))
           else Inl IndexOutOfRange)"

subsection \<open>Shutdown\<close>

text \<open>
  \<^verbatim>\<open>Close\<close>, lines 179 to 192. \<open>close_conn\<close> is the call of a connection's
  \<^verbatim>\<open>Close\<close> method with the logging of its failure, as it stands in \<^verbatim>\<open>Close\<close> and in
  \<^verbatim>\<open>probe\<close>; \<open>close_loop\<close> is the loop \<^verbatim>\<open>for range len\<close>, which closes and removes
  the first connection \<open>len\<close> times.
\<close>

definition close_conn :: "'c \<Rightarrow> ('c, 's) Pool \<Rightarrow> ('c, 's) Pool" where
  "close_conn c p =
     (let p1 = p\<lparr>closes := closes p @ [c]\<rparr>
      in case Close_T p c of
           None \<Rightarrow> p1
         | Some e \<Rightarrow> log_Errorf ''failed to close connection: %v'' [ErrArg e] p1)"

primrec close_loop :: "nat \<Rightarrow> ('c, 's) Pool \<Rightarrow> abort + ('c, 's) Pool" where
  "close_loop 0 p = Inr p"
| "close_loop (Suc k) p =
     (case pool p of
        [] \<Rightarrow> Inl IndexOutOfRange
      | c # _ \<Rightarrow>
          (case removeFromPool 0 (close_conn c p) of
             Inl a \<Rightarrow> Inl a
           | Inr p1 \<Rightarrow> close_loop k p1))"

definition Close :: "('c, 's) Pool \<Rightarrow> abort + ('c, 's) Pool" where
  "Close p =
     (if closer p then Inr p
      else
        let p1 = log_Debugf ''closing connection pool'' [] (p\<lparr>closer := True\<rparr>)
        in if closed p1 then Inl SendBlocks
           else
             let p2 = p1\<lparr>closed := True\<rparr>;
                 len = Size p2
             in close_loop (nat len) p2)"

subsection \<open>Reconciliation\<close>

text \<open>
  \<^verbatim>\<open>probe\<close>, lines 237 to 280. The health loop \<^verbatim>\<open>for i := range len\<close> runs over
  the indices \<open>0, \<dots>, len - 1\<close> with the counter \<open>removed\<close>.
\<close>

primrec health_loop ::
  "('c \<Rightarrow> bool) \<Rightarrow> int list \<Rightarrow> int \<Rightarrow> ('c, 's) Pool \<Rightarrow> abort + ('c, 's) Pool" where
  "health_loop h [] removed p = Inr p"
| "health_loop h (i # is) removed p =
     (let index = i - removed in
      if index < 0 \<or> int (length (pool p)) \<le> index then Inl IndexOutOfRange
      else
        let c = pool p ! nat index in
        if \<not> h c then
          (let p1 = reportError
                      (log_Errorf ''removing unhealthy connection from pool'' [] (close_conn c p))
           in case removeFromPool index p1 of
                Inl a \<Rightarrow> Inl a
              | Inr p2 \<Rightarrow> health_loop h is (removed + 1) p2)
        else health_loop h is removed p)"

text \<open>The replenishment loop \<^verbatim>\<open>for range diff\<close>, run \<open>diff\<close> times.\<close>

primrec connect_loop :: "nat \<Rightarrow> ('c, 's) Pool \<Rightarrow> abort + ('c, 's) Pool" where
  "connect_loop 0 p = Inr p"
| "connect_loop (Suc k) p =
     (case Connect (opts p) of
        None \<Rightarrow> Inl NilFunctionCall
      | Some f \<Rightarrow>
          (case f (ext p) of
             (Inl err, s) \<Rightarrow>
               connect_loop k
                 (reportError
                    (log_Errorf ''failed to create connection: %v'' [ErrArg err]
                       (p\<lparr>ext := s, connects := connects p + 1\<rparr>)))
           | (Inr conn, s) \<Rightarrow>
               connect_loop k (Return (p\<lparr>ext := s, connects := connects p + 1\<rparr>) conn)))"

text \<open>
  The receive \<^verbatim>\<open>case <-p.Closed()\<close> takes the buffered value out of the channel.
  \<open>diff\<close> is computed from \<open>len\<close>, read before the health loop; a loop over a
  negative \<open>diff\<close> does not run.
\<close>

definition probe :: "('c, 's) Pool \<Rightarrow> abort + ('c, 's) Pool" where
  "probe p =
     (let p0 = log_Debugf ''probing connection pool'' [] p in
      if closed p0 then Inr (p0\<lparr>closed := False\<rparr>)
      else
        let len = Size p0;
            p1 = reportSize len p0
        in if len = Connections (opts p1) then Inr p1
           else
             (case (case Healthy (opts p1) of
                      None \<Rightarrow> Inr p1
                    | Some h \<Rightarrow> health_loop h (map int [0..<nat len]) 0 p1) of
                Inl a \<Rightarrow> Inl a
              | Inr p2 \<Rightarrow>
                  (let diff = Connections (opts p2) - len
                   in connect_loop (nat diff) p2)))"

text \<open>
  \<^verbatim>\<open>connect\<close> (lines 194 to 211) runs one pass and starts the ticker; the ticker's
  passes are the later calls of \<open>probe\<close>. \<^verbatim>\<open>New\<close> (lines 100 to 123) takes the
  \<^verbatim>\<open>Close\<close> method of the connection type and the initial state of the factory as
  further arguments.
\<close>

definition connect :: "('c, 's) Pool \<Rightarrow> abort + ('c, 's) Pool" where
  "connect p =
     probe (log_Debugf ''creating connection pool with %d connections''
              [IntArg (Connections (opts p))] p)"

definition New ::
  "('c \<Rightarrow> string option) \<Rightarrow> ('c, 's) PoolOptions \<Rightarrow> 's \<Rightarrow> abort + ('c, 's) Pool" where
  "New cl options s =
     (case validate options of
        Some err \<Rightarrow> Inl (Failed err)
      | None \<Rightarrow>
          connect
            \<lparr>opts = options,
             logger = (case Logger options of None \<Rightarrow> DefaultLogger | Some l \<Rightarrow> l),
             pool = [], closer = False, closed = False, next_u64 = 0,
             Close_T = cl, ext = s, logs = [], closes = [], connects = 0,
             gauge = None, errors = 0, retrievals = 0\<rparr>)"

subsection \<open>Auxiliary definitions for the statements\<close>

text \<open>The error-log calls that closing the connections \<open>cs\<close> produces.\<close>

definition close_failures :: "('c \<Rightarrow> string option) \<Rightarrow> 'c list \<Rightarrow> log_call list" where
  "close_failures cl cs =
     concat (map (\<lambda>c. case cl c of None \<Rightarrow> []
                      | Some e \<Rightarrow> [Errorf ''failed to close connection: %v'' [ErrArg e]]) cs)"

text \<open>\<open>n\<close> calls of \<^verbatim>\<open>Close\<close> in a row.\<close>

primrec Close_n :: "nat \<Rightarrow> ('c, 's) Pool \<Rightarrow> abort + ('c, 's) Pool" where
  "Close_n 0 p = Inr p"
| "Close_n (Suc n) p = (case Close p of Inl a \<Rightarrow> Inl a | Inr p' \<Rightarrow> Close_n n p')"

text \<open>
  A concrete pool of connections numbered by naturals: the factory always succeeds and
  hands out \<open>100, 101, \<dots>\<close>, no close fails.
\<close>

definition all_metrics :: PoolMetrics where
  "all_metrics = \<lparr>mConnections = True, mConnectionErrors = True, mRetrievals = True\<rparr>"

definition example_opts ::
  "int \<Rightarrow> (nat \<Rightarrow> bool) option \<Rightarrow> PoolMetrics option \<Rightarrow> (nat, nat) PoolOptions" where
  "example_opts n h m =
     \<lparr>Connect = Some (\<lambda>s. (Inr (100 + s), Suc s)), Healthy = h, Connections = n,
      ProbeInterval = 1000000, Logger = Some NullLogger, Metrics = m\<rparr>"

definition example_pool ::
  "(nat, nat) PoolOptions \<Rightarrow> nat list \<Rightarrow> 64 word \<Rightarrow> (nat, nat) Pool" where
  "example_pool options cs cur =
     \<lparr>opts = options, logger = nullLogger, pool = cs, closer = False, closed = False,
      next_u64 = cur, Close_T = (\<lambda>_. None), ext = 0, logs = [], closes = [], connects = 0,
      gauge = None, errors = 0, retrievals = 0\<rparr>"

text \<open>
  A close method that fails for connection 1.
\<close>

definition failing_close :: "nat \<Rightarrow> string option" where
  "failing_close c = (if c = 1 then Some ''broken pipe'' else None)"

text \<open>
  \<open>k\<close> calls of \<^verbatim>\<open>Next\<close> in a row, with the results in order.
\<close>

primrec Next_n ::
  "nat \<Rightarrow> ('c, 's) Pool \<Rightarrow> abort + ('c option \<times> bool) list \<times> ('c, 's) Pool" where
  "Next_n 0 p = Inr ([], p)"
| "Next_n (Suc k) p =
     (case Next p of
        Inl a \<Rightarrow> Inl a
      | Inr (r, p1) \<Rightarrow>
          (case Next_n k p1 of Inl a \<Rightarrow> Inl a | Inr (rs, p2) \<Rightarrow> Inr (r # rs, p2)))"

subsection \<open>Sequences of operations\<close>

text \<open>
  A caller's operations on one pool, with the ticker's passes among them. The second
  component of the state lists the connections handed out by \<^verbatim>\<open>ExNext\<close> and not
  yet returned.
\<close>

datatype 'c op = OpNext | OpExNext | OpReturn 'c | OpProbe | OpClose

fun exec_op :: "'c op \<Rightarrow> ('c, 's) Pool \<times> 'c list \<Rightarrow> abort + ('c, 's) Pool \<times> 'c list" where
  "exec_op OpNext (p, out) =
     (case Next p of Inl a \<Rightarrow> Inl a | Inr (r, p') \<Rightarrow> Inr (p', out))"
| "exec_op OpExNext (p, out) =
     (case ExNext p of
        Inl a \<Rightarrow> Inl a
      | Inr ((r, ok), p') \<Rightarrow>
          Inr (p', (case r of None \<Rightarrow> out | Some c \<Rightarrow> if ok then c # out else out)))"
| "exec_op (OpReturn c) (p, out) = Inr (Return p c, remove1 c out)"
| "exec_op OpProbe (p, out) =
     (case probe p of Inl a \<Rightarrow> Inl a | Inr p' \<Rightarrow> Inr (p', out))"
| "exec_op OpClose (p, out) =
     (case Close p of Inl a \<Rightarrow> Inl a | Inr p' \<Rightarrow> Inr (p', out))"

text \<open>
  The caller contract: \<^verbatim>\<open>Return\<close> only passes a connection that is checked out
  (and \<open>remove1\<close> then takes it off the list, so at most once). With \<open>quiet\<close>,
  a pass runs only while no connection is checked out.
\<close>

fun allowed :: "bool \<Rightarrow> 'c op \<Rightarrow> 'c list \<Rightarrow> bool" where
  "allowed quiet (OpReturn c) out = (c \<in> set out)"
| "allowed quiet OpProbe out = (if quiet then out = [] else True)"
| "allowed quiet _ out = True"

fun run :: "'c op list \<Rightarrow> ('c, 's) Pool \<times> 'c list \<Rightarrow> abort + ('c, 's) Pool \<times> 'c list" where
  "run [] st = Inr st"
| "run (x # xs) st = (case exec_op x st of Inl a \<Rightarrow> Inl a | Inr st' \<Rightarrow> run xs st')"

fun in_contract :: "bool \<Rightarrow> 'c op list \<Rightarrow> ('c, 's) Pool \<times> 'c list \<Rightarrow> bool" where
  "in_contract quiet [] st = True"
| "in_contract quiet (x # xs) st =
     (allowed quiet x (snd st) \<and>
      (case exec_op x st of Inl a \<Rightarrow> True | Inr st' \<Rightarrow> in_contract quiet xs st'))"

text \<open>
  The registry and the checked-out connections together fit the target count.
\<close>

definition within_target :: "int \<Rightarrow> ('c, 's) Pool \<times> 'c list \<Rightarrow> bool" where
  "within_target t st =
     (Connect (opts (fst st)) \<noteq> None \<and> Connections (opts (fst st)) = t \<and>
      int (length (pool (fst st))) + int (length (snd st)) \<le> t)"

text \<open>
  The channel holds a value only after the one-shot guard of \<^verbatim>\<open>Close\<close> has fired, and
  the pool has a connect factory.
\<close>

definition channel_ok :: "('c, 's) Pool \<Rightarrow> bool" where
  "channel_ok p = (Connect (opts p) \<noteq> None \<and> (if closed p then closer p else True))"

text \<open>
  The pool that \<^verbatim>\<open>New\<close> returns for target 2 with the factory above.
\<close>

definition fresh_pool :: "(nat, nat) Pool" where
  "fresh_pool =
     (example_pool (example_opts 2 None None) [100, 101] 0)
       \<lparr>ext := 2, connects := 2,
        logs := [Debugf ''creating connection pool with %d connections'' [IntArg 2],
                 Debugf ''probing connection pool'' []]\<rparr>"

section \<open>Basic facts about the helpers\<close>

lemma log_Debugf_fields [simp]:
  "opts (log_Debugf f a p) = opts p" "pool (log_Debugf f a p) = pool p"
  "closer (log_Debugf f a p) = closer p" "closed (log_Debugf f a p) = closed p"
  "next_u64 (log_Debugf f a p) = next_u64 p" "Close_T (log_Debugf f a p) = Close_T p"
  "ext (log_Debugf f a p) = ext p" "closes (log_Debugf f a p) = closes p"
  "connects (log_Debugf f a p) = connects p" "retrievals (log_Debugf f a p) = retrievals p"
  "errors (log_Debugf f a p) = errors p"
  "logs (log_Debugf f a p) = logs p @ [Debugf f a]"
  by (simp_all add: log_Debugf_def)

lemma log_Errorf_fields [simp]:
  "opts (log_Errorf f a p) = opts p" "pool (log_Errorf f a p) = pool p"
  "closer (log_Errorf f a p) = closer p" "closed (log_Errorf f a p) = closed p"
  "next_u64 (log_Errorf f a p) = next_u64 p" "Close_T (log_Errorf f a p) = Close_T p"
  "ext (log_Errorf f a p) = ext p" "closes (log_Errorf f a p) = closes p"
  "connects (log_Errorf f a p) = connects p" "retrievals (log_Errorf f a p) = retrievals p"
  "errors (log_Errorf f a p) = errors p"
  "logs (log_Errorf f a p) = logs p @ [Errorf f a]"
  by (simp_all add: log_Errorf_def)

lemma reportSize_fields [simp]:
  "opts (reportSize n p) = opts p" "pool (reportSize n p) = pool p"
  "closer (reportSize n p) = closer p" "closed (reportSize n p) = closed p"
  "next_u64 (reportSize n p) = next_u64 p" "Close_T (reportSize n p) = Close_T p"
  "ext (reportSize n p) = ext p" "closes (reportSize n p) = closes p"
  "connects (reportSize n p) = connects p" "retrievals (reportSize n p) = retrievals p"
  "errors (reportSize n p) = errors p" "logs (reportSize n p) = logs p"
  by (simp_all add: reportSize_def split: option.splits)

lemma reportError_fields [simp]:
  "opts (reportError p) = opts p" "pool (reportError p) = pool p"
  "closer (reportError p) = closer p" "closed (reportError p) = closed p"
  "next_u64 (reportError p) = next_u64 p" "Close_T (reportError p) = Close_T p"
  "ext (reportError p) = ext p" "closes (reportError p) = closes p"
  "connects (reportError p) = connects p" "retrievals (reportError p) = retrievals p"
  "logs (reportError p) = logs p"
  by (simp_all add: reportError_def split: option.splits)

lemma reportRetrieval_fields [simp]:
  "opts (reportRetrieval p) = opts p" "pool (reportRetrieval p) = pool p"
  "closer (reportRetrieval p) = closer p" "closed (reportRetrieval p) = closed p"
  "next_u64 (reportRetrieval p) = next_u64 p" "Close_T (reportRetrieval p) = Close_T p"
  "ext (reportRetrieval p) = ext p" "closes (reportRetrieval p) = closes p"
  "connects (reportRetrieval p) = connects p" "errors (reportRetrieval p) = errors p"
  "logs (reportRetrieval p) = logs p"
  by (simp_all add: reportRetrieval_def split: option.splits)

lemma Return_fields [simp]:
  "opts (Return p c) = opts p" "pool (Return p c) = pool p @ [c]"
  "closer (Return p c) = closer p" "closed (Return p c) = closed p"
  "next_u64 (Return p c) = next_u64 p" "Close_T (Return p c) = Close_T p"
  "ext (Return p c) = ext p" "closes (Return p c) = closes p"
  "connects (Return p c) = connects p" "retrievals (Return p c) = retrievals p"
  "errors (Return p c) = errors p" "logs (Return p c) = logs p"
  by (simp_all add: Return_def)

lemma close_conn_fields [simp]:
  "opts (close_conn c p) = opts p" "pool (close_conn c p) = pool p"
  "closer (close_conn c p) = closer p" "closed (close_conn c p) = closed p"
  "next_u64 (close_conn c p) = next_u64 p" "Close_T (close_conn c p) = Close_T p"
  "ext (close_conn c p) = ext p" "closes (close_conn c p) = closes p @ [c]"
  "connects (close_conn c p) = connects p" "retrievals (close_conn c p) = retrievals p"
  "errors (close_conn c p) = errors p"
  by (simp_all add: close_conn_def Let_def split: option.splits)

lemma Size_fields [simp]:
  "Size (log_Debugf f a p) = Size p" "Size (log_Errorf f a p) = Size p"
  "Size (reportSize n p) = Size p" "Size (reportError p) = Size p"
  "Size (reportRetrieval p) = Size p" "Size (close_conn c p) = Size p"
  by (simp_all add: Size_def)

lemmas example_defs = example_opts_def example_pool_def all_metrics_def

lemmas step_defs = probe_def Size_def log_Debugf_def log_Errorf_def reportSize_def
  reportError_def reportRetrieval_def close_conn_def removeFromPool_def Return_def

lemmas retrieval_defs = Next_def ExNext_def Size_def reportRetrieval_def index_of_def
  go_rem_def removeFromPool_def

section \<open>Shutdown\<close>

lemma close_conn_logs:
  "logs (close_conn c p) = logs p @ close_failures (Close_T p) [c]"
  by (simp add: close_conn_def close_failures_def Let_def split: option.splits)

lemma close_failures_Cons:
  "close_failures cl (c # cs) = close_failures cl [c] @ close_failures cl cs"
  by (simp add: close_failures_def)

lemma close_loop_drains:
  "k \<le> length (pool p) \<Longrightarrow>
   \<exists>p'. close_loop k p = Inr p' \<and> pool p' = drop k (pool p) \<and>
        closes p' = closes p @ take k (pool p) \<and>
        logs p' = logs p @ close_failures (Close_T p) (take k (pool p)) \<and>
        opts p' = opts p \<and> closer p' = closer p \<and> closed p' = closed p \<and>
        next_u64 p' = next_u64 p \<and> Close_T p' = Close_T p \<and> ext p' = ext p \<and>
        connects p' = connects p \<and> retrievals p' = retrievals p \<and> errors p' = errors p"
proof (induction k arbitrary: p)
  case 0
  then show ?case by (simp add: close_failures_def)
next
  case (Suc k)
  then obtain c cs where cs: "pool p = c # cs" by (cases "pool p") auto
  define q where "q = (close_conn c p)\<lparr>pool := cs\<rparr>"
  have rm: "removeFromPool 0 (close_conn c p) = Inr q"
    by (simp add: removeFromPool_def cs q_def)
  have "k \<le> length (pool q)" using Suc.prems cs by (simp add: q_def)
  from Suc.IH [OF this] obtain p' where p':
    "close_loop k q = Inr p'" "pool p' = drop k (pool q)"
    "closes p' = closes q @ take k (pool q)"
    "logs p' = logs q @ close_failures (Close_T q) (take k (pool q))"
    "opts p' = opts q" "closer p' = closer q" "closed p' = closed q"
    "next_u64 p' = next_u64 q" "Close_T p' = Close_T q" "ext p' = ext q"
    "connects p' = connects q" "retrievals p' = retrievals q" "errors p' = errors q"
    by blast
  have "close_loop (Suc k) p = Inr p'" using cs rm p'(1) by simp
  moreover have "logs p' = logs p @ close_failures (Close_T p) (take (Suc k) (pool p))"
    using p'(4) cs close_failures_Cons [of "Close_T p" c "take k cs"]
    by (simp add: q_def close_conn_logs)
  ultimately show ?case using p' cs by (simp add: q_def)
qed

lemma Close_first:
  assumes "\<not> closer p" "\<not> closed p"
  shows "\<exists>p'. Close p = Inr p' \<and> pool p' = [] \<and> closer p' \<and> closed p' \<and>
           closes p' = closes p @ pool p \<and>
           logs p' = logs p @ Debugf ''closing connection pool'' [] #
                       close_failures (Close_T p) (pool p) \<and>
           opts p' = opts p \<and> next_u64 p' = next_u64 p \<and> Close_T p' = Close_T p \<and>
           ext p' = ext p \<and> connects p' = connects p \<and> retrievals p' = retrievals p \<and>
           errors p' = errors p"
proof -
  define q where "q = (log_Debugf ''closing connection pool'' [] (p\<lparr>closer := True\<rparr>))\<lparr>closed := True\<rparr>"
  have c: "Close p = close_loop (length (pool p)) q"
    using assms by (simp add: Close_def Let_def Size_def q_def)
  have "length (pool p) \<le> length (pool q)" by (simp add: q_def)
  from close_loop_drains [OF this] obtain p' where
    "close_loop (length (pool p)) q = Inr p'" "pool p' = drop (length (pool p)) (pool q)"
    "closes p' = closes q @ take (length (pool p)) (pool q)"
    "logs p' = logs q @ close_failures (Close_T q) (take (length (pool p)) (pool q))"
    "opts p' = opts q" "closer p' = closer q" "closed p' = closed q"
    "next_u64 p' = next_u64 q" "Close_T p' = Close_T q" "ext p' = ext q"
    "connects p' = connects q" "retrievals p' = retrievals q" "errors p' = errors q"
    by blast
  then show ?thesis using c by (simp add: q_def)
qed

lemma Close_sets_closer: "Close p = Inr p' \<Longrightarrow> closer p'"
proof (cases "closer p")
  case True
  assume "Close p = Inr p'"
  with True show ?thesis by (simp add: Close_def)
next
  case False
  assume c: "Close p = Inr p'"
  show ?thesis
  proof (cases "closed p")
    case True
    with False c show ?thesis by (simp add: Close_def Let_def)
  next
    case nc: False
    from Close_first [OF False nc] c show ?thesis by auto
  qed
qed

lemma Close_n_done: "closer p \<Longrightarrow> Close_n n p = Inr p"
  by (induction n) (simp_all add: Close_def)

lemma Close_shrinks:
  assumes "Close p = Inr p'"
  shows "opts p' = opts p \<and> length (pool p') \<le> length (pool p)"
proof (cases "closer p")
  case True
  with assms show ?thesis by (simp add: Close_def)
next
  case False
  show ?thesis
  proof (cases "closed p")
    case True
    with False assms show ?thesis by (simp add: Close_def Let_def)
  next
    case nc: False
    from Close_first [OF False nc] assms show ?thesis by auto
  qed
qed

text \<open>
  Claim C5. \<^verbatim>\<open>Close\<close> is idempotent: for every pool, any positive number of calls in
  a row ends like one call. The first call (the one-shot guard has not fired, so nothing
  was sent on the channel: \<open>first_Close_never_blocks\<close> below) returns without an
  abort, leaves the registry empty, has invoked the close operation of every registry
  entry exactly once, in order, and has logged one error line per failed close and
  nothing else after the opening debug line.
\<close>

theorem Close_idempotent:
  "Close_n (Suc n) p = Close p \<and>
   (\<not> closer p \<and> \<not> closed p \<longrightarrow>
      (\<exists>p'. Close p = Inr p' \<and> Size p' = 0 \<and> closes p' = closes p @ pool p \<and>
            logs p' = logs p @ Debugf ''closing connection pool'' [] #
                        close_failures (Close_T p) (pool p)))"
proof
  show "Close_n (Suc n) p = Close p"
  proof (cases "Close p")
    case (Inl a)
    then show ?thesis by simp
  next
    case (Inr p')
    then have "closer p'" by (rule Close_sets_closer)
    then show ?thesis using Inr by (simp add: Close_n_done)
  qed
next
  show "\<not> closer p \<and> \<not> closed p \<longrightarrow>
      (\<exists>p'. Close p = Inr p' \<and> Size p' = 0 \<and> closes p' = closes p @ pool p \<and>
            logs p' = logs p @ Debugf ''closing connection pool'' [] #
                        close_failures (Close_T p) (pool p))"
  proof
    assume "\<not> closer p \<and> \<not> closed p"
    then have a: "\<not> closer p" "\<not> closed p" by simp_all
    from Close_first [OF a] show "\<exists>p'. Close p = Inr p' \<and> Size p' = 0 \<and> closes p' = closes p @ pool p \<and>
            logs p' = logs p @ Debugf ''closing connection pool'' [] #
                        close_failures (Close_T p) (pool p)"
      by (auto simp: Size_def)
  qed
qed

text \<open>
  C5 on the registry \<open>[1, 2]\<close>, where closing connection 1 fails.
\<close>

theorem Close_idempotent_witness:
  "\<not> closer ((example_pool (example_opts 2 None None) [1, 2] 0)\<lparr>Close_T := failing_close\<rparr>) \<and>
   \<not> closed ((example_pool (example_opts 2 None None) [1, 2] 0)\<lparr>Close_T := failing_close\<rparr>) \<and>
   Close_n (Suc 2) ((example_pool (example_opts 2 None None) [1, 2] 0)\<lparr>Close_T := failing_close\<rparr>)
     = Close ((example_pool (example_opts 2 None None) [1, 2] 0)\<lparr>Close_T := failing_close\<rparr>) \<and>
   (\<exists>p'. Close ((example_pool (example_opts 2 None None) [1, 2] 0)\<lparr>Close_T := failing_close\<rparr>) = Inr p' \<and>
      Size p' = 0 \<and> closes p' = [1, 2] \<and>
      logs p' = [Debugf ''closing connection pool'' [],
                 Errorf ''failed to close connection: %v'' [ErrArg ''broken pipe'']])"
proof -
  let ?p = "(example_pool (example_opts 2 None None) [1, 2] 0)\<lparr>Close_T := failing_close\<rparr>"
  have a: "\<not> closer ?p" "\<not> closed ?p" by (simp_all add: example_defs)
  have b: "closes ?p = []" "pool ?p = [1, 2]" "logs ?p = []" "Close_T ?p = failing_close"
    by (simp_all add: example_defs)
  have c: "close_failures failing_close [1, 2] =
           [Errorf ''failed to close connection: %v'' [ErrArg ''broken pipe'']]"
    by (simp add: close_failures_def failing_close_def)
  show ?thesis using Close_idempotent [of 2 ?p] a b c by simp
qed

section \<open>Reconciliation\<close>

lemma health_loop_scan:
  assumes "pool p = ks @ rs @ ts" "int (length ks) = int i - removed"
  shows "\<exists>p'. health_loop h (map int [i..<i + length rs]) removed p = Inr p' \<and>
           pool p' = ks @ filter h rs @ ts \<and>
           closes p' = closes p @ filter (\<lambda>c. \<not> h c) rs \<and>
           opts p' = opts p \<and> closer p' = closer p \<and> closed p' = closed p \<and>
           next_u64 p' = next_u64 p \<and> Close_T p' = Close_T p \<and> ext p' = ext p \<and>
           connects p' = connects p \<and> retrievals p' = retrievals p"
  using assms
proof (induction rs arbitrary: p ks i removed)
  case Nil
  then show ?case by simp
next
  case (Cons r rs)
  have idx: "[i..<i + length (r # rs)] = i # [Suc i..<Suc i + length rs]"
    using upt_conv_Cons [of i "i + length (r # rs)"] by simp
  have at: "pool p ! length ks = r" using Cons.prems(1) by simp
  have len: "int (length ks) < int (length (pool p))" using Cons.prems(1) by simp
  have nn: "nat (int i - removed) = length ks" using Cons.prems(2) by simp
  show ?case
  proof (cases "h r")
    case True
    have "pool p = (ks @ [r]) @ rs @ ts" using Cons.prems(1) by simp
    moreover have "int (length (ks @ [r])) = int (Suc i) - removed"
      using Cons.prems(2) by simp
    ultimately obtain p' where p':
      "health_loop h (map int [Suc i..<Suc i + length rs]) removed p = Inr p'"
      "pool p' = (ks @ [r]) @ filter h rs @ ts"
      "closes p' = closes p @ filter (\<lambda>c. \<not> h c) rs"
      "opts p' = opts p" "closer p' = closer p" "closed p' = closed p"
      "next_u64 p' = next_u64 p" "Close_T p' = Close_T p" "ext p' = ext p"
      "connects p' = connects p" "retrievals p' = retrievals p"
      using Cons.IH [of p "ks @ [r]" "Suc i" removed] by blast
    have "health_loop h (map int [i..<i + length (r # rs)]) removed p = Inr p'"
      unfolding idx using True at len nn Cons.prems(2) p'(1)
      by (simp add: Let_def)
    then show ?thesis using p' True by simp
  next
    case False
    define q where "q = reportError
        (log_Errorf ''removing unhealthy connection from pool'' [] (close_conn r p))"
    define q' where "q' = q\<lparr>pool := ks @ rs @ ts\<rparr>"
    have rm: "removeFromPool (int i - removed) q = Inr q'"
      using Cons.prems nn by (simp add: removeFromPool_def q_def q'_def)
    have "pool q' = ks @ rs @ ts" by (simp add: q'_def)
    moreover have "int (length ks) = int (Suc i) - (removed + 1)"
      using Cons.prems(2) by simp
    ultimately obtain p' where p':
      "health_loop h (map int [Suc i..<Suc i + length rs]) (removed + 1) q' = Inr p'"
      "pool p' = ks @ filter h rs @ ts"
      "closes p' = closes q' @ filter (\<lambda>c. \<not> h c) rs"
      "opts p' = opts q'" "closer p' = closer q'" "closed p' = closed q'"
      "next_u64 p' = next_u64 q'" "Close_T p' = Close_T q'" "ext p' = ext q'"
      "connects p' = connects q'" "retrievals p' = retrievals q'"
      using Cons.IH [of q' ks "Suc i" "removed + 1"] by blast
    have "health_loop h (map int [i..<i + length (r # rs)]) removed p = Inr p'"
      unfolding idx using False at len nn Cons.prems(2) p'(1) rm
      by (simp add: Let_def q_def)
    then show ?thesis using p' False by (simp add: q'_def q_def)
  qed
qed

lemma connect_loop_appends:
  assumes "Connect (opts p) = Some f"
  shows "\<exists>p' news. connect_loop k p = Inr p' \<and> pool p' = pool p @ news \<and>
           length news \<le> k \<and> connects p' = connects p + k \<and>
           ((\<forall>s. \<exists>c s'. f s = (Inr c, s')) \<longrightarrow> length news = k) \<and>
           closes p' = closes p \<and>
           opts p' = opts p \<and> closer p' = closer p \<and> closed p' = closed p \<and>
           next_u64 p' = next_u64 p \<and> Close_T p' = Close_T p \<and>
           retrievals p' = retrievals p"
  using assms
proof (induction k arbitrary: p)
  case 0
  then show ?case by simp
next
  case (Suc k)
  obtain r s where fs: "f (ext p) = (r, s)" by (cases "f (ext p)")
  define p0 where "p0 = p\<lparr>ext := s, connects := connects p + 1\<rparr>"
  show ?case
  proof (cases r)
    case (Inl err)
    define q where "q = reportError
        (log_Errorf ''failed to create connection: %v'' [ErrArg err] p0)"
    have "Connect (opts q) = Some f" using Suc.prems by (simp add: q_def p0_def)
    from Suc.IH [OF this] obtain p' news where p':
      "connect_loop k q = Inr p'" "pool p' = pool q @ news" "length news \<le> k"
      "connects p' = connects q + k"
      "closes p' = closes q" "opts p' = opts q" "closer p' = closer q"
      "closed p' = closed q" "next_u64 p' = next_u64 q" "Close_T p' = Close_T q"
      "retrievals p' = retrievals q"
      by blast
    have "connect_loop (Suc k) p = Inr p'"
      using Suc.prems fs Inl p'(1) by (simp add: q_def p0_def)
    moreover have "\<not> (\<forall>s. \<exists>c s'. f s = (Inr c, s'))"
      using fs Inl by (metis Inl_Inr_False fst_conv)
    ultimately show ?thesis using p' by (auto simp: q_def p0_def)
  next
    case (Inr conn)
    define q where "q = Return p0 conn"
    have "Connect (opts q) = Some f" using Suc.prems by (simp add: q_def p0_def)
    from Suc.IH [OF this] obtain p' news where p':
      "connect_loop k q = Inr p'" "pool p' = pool q @ news" "length news \<le> k"
      "connects p' = connects q + k"
      "(\<forall>s. \<exists>c s'. f s = (Inr c, s')) \<longrightarrow> length news = k"
      "closes p' = closes q" "opts p' = opts q" "closer p' = closer q"
      "closed p' = closed q" "next_u64 p' = next_u64 q" "Close_T p' = Close_T q"
      "retrievals p' = retrievals q"
      by blast
    have "connect_loop (Suc k) p = Inr p'"
      using Suc.prems fs Inr p'(1) by (simp add: q_def p0_def)
    moreover have "pool p' = pool p @ (conn # news)"
      using p'(2) by (simp add: q_def p0_def)
    moreover have "length (conn # news) \<le> Suc k" using p'(3) by simp
    moreover have "(\<forall>s. \<exists>c s'. f s = (Inr c, s')) \<longrightarrow> length (conn # news) = Suc k"
      using p'(5) by simp
    ultimately show ?thesis using p'(4,6-) by (auto simp: q_def p0_def)
  qed
qed

lemma probe_closed:
  "closed p \<Longrightarrow> probe p = Inr ((log_Debugf ''probing connection pool'' [] p)\<lparr>closed := False\<rparr>)"
  by (simp add: probe_def Let_def)

lemma probe_fast_path:
  "\<not> closed p \<Longrightarrow> Size p = Connections (opts p) \<Longrightarrow>
   probe p = Inr (reportSize (Size p) (log_Debugf ''probing connection pool'' [] p))"
  by (simp add: probe_def Let_def Size_def)

lemma probe_slow_path:
  assumes "\<not> closed p" "Size p \<noteq> Connections (opts p)" "Connect (opts p) = Some f"
  shows "\<exists>p' news. probe p = Inr p' \<and>
           pool p' = (case Healthy (opts p) of None \<Rightarrow> pool p | Some h \<Rightarrow> filter h (pool p)) @ news \<and>
           length news \<le> nat (Connections (opts p) - Size p) \<and>
           connects p' = connects p + nat (Connections (opts p) - Size p) \<and>
           ((\<forall>s. \<exists>c s'. f s = (Inr c, s')) \<longrightarrow>
              length news = nat (Connections (opts p) - Size p)) \<and>
           closes p' = closes p @
             (case Healthy (opts p) of None \<Rightarrow> [] | Some h \<Rightarrow> filter (\<lambda>c. \<not> h c) (pool p)) \<and>
           opts p' = opts p \<and> closer p' = closer p \<and> closed p' = closed p \<and>
           next_u64 p' = next_u64 p \<and> Close_T p' = Close_T p \<and>
           retrievals p' = retrievals p"
proof -
  define p1 where "p1 = reportSize (Size p) (log_Debugf ''probing connection pool'' [] p)"
  define k where "k = nat (Connections (opts p) - Size p)"
  have "\<exists>p2. (case Healthy (opts p1) of None \<Rightarrow> Inr p1
               | Some h \<Rightarrow> health_loop h (map int [0..<nat (Size p)]) 0 p1) = Inr p2 \<and>
          pool p2 = (case Healthy (opts p) of None \<Rightarrow> pool p | Some h \<Rightarrow> filter h (pool p)) \<and>
          closes p2 = closes p @
             (case Healthy (opts p) of None \<Rightarrow> [] | Some h \<Rightarrow> filter (\<lambda>c. \<not> h c) (pool p)) \<and>
          opts p2 = opts p \<and> closer p2 = closer p \<and> closed p2 = closed p \<and>
          next_u64 p2 = next_u64 p \<and> Close_T p2 = Close_T p \<and>
          connects p2 = connects p \<and> retrievals p2 = retrievals p"
  proof (cases "Healthy (opts p)")
    case None
    then show ?thesis by (simp add: p1_def)
  next
    case (Some h)
    have "pool p1 = [] @ pool p @ []" by (simp add: p1_def)
    moreover have "int (length ([] :: 'a list)) = int 0 - 0" by simp
    ultimately obtain p2 where
      "health_loop h (map int [0..<0 + length (pool p)]) 0 p1 = Inr p2"
      "pool p2 = [] @ filter h (pool p) @ []"
      "closes p2 = closes p1 @ filter (\<lambda>c. \<not> h c) (pool p)"
      "opts p2 = opts p1" "closer p2 = closer p1" "closed p2 = closed p1"
      "next_u64 p2 = next_u64 p1" "Close_T p2 = Close_T p1" "ext p2 = ext p1"
      "connects p2 = connects p1" "retrievals p2 = retrievals p1"
      using health_loop_scan [of p1 "[]" "pool p" "[]" 0 0 h] by blast
    then show ?thesis using Some by (simp add: p1_def Size_def)
  qed
  then obtain p2 where p2:
    "(case Healthy (opts p1) of None \<Rightarrow> Inr p1
       | Some h \<Rightarrow> health_loop h (map int [0..<nat (Size p)]) 0 p1) = Inr p2"
    "pool p2 = (case Healthy (opts p) of None \<Rightarrow> pool p | Some h \<Rightarrow> filter h (pool p))"
    "closes p2 = closes p @
       (case Healthy (opts p) of None \<Rightarrow> [] | Some h \<Rightarrow> filter (\<lambda>c. \<not> h c) (pool p))"
    "opts p2 = opts p" "closer p2 = closer p" "closed p2 = closed p"
    "next_u64 p2 = next_u64 p" "Close_T p2 = Close_T p"
    "connects p2 = connects p" "retrievals p2 = retrievals p"
    by blast
  have pr: "probe p = connect_loop k p2"
    using assms(1,2) p2(1) [unfolded p1_def] p2(4)
    by (simp add: probe_def Let_def k_def)
  have "Connect (opts p2) = Some f" using assms(3) p2(4) by simp
  from connect_loop_appends [OF this, of k] obtain p' news where
    "connect_loop k p2 = Inr p'" "pool p' = pool p2 @ news" "length news \<le> k"
    "connects p' = connects p2 + k"
    "(\<forall>s. \<exists>c s'. f s = (Inr c, s')) \<longrightarrow> length news = k"
    "closes p' = closes p2" "opts p' = opts p2" "closer p' = closer p2"
    "closed p' = closed p2" "next_u64 p' = next_u64 p2" "Close_T p' = Close_T p2"
    "retrievals p' = retrievals p2"
    by blast
  then show ?thesis using pr p2 unfolding k_def by auto
qed

lemma probe_bound:
  assumes "Connect (opts p) = Some f"
  shows "\<exists>p'. probe p = Inr p' \<and>
           int (length (pool p')) \<le> max (Size p) (Connections (opts p)) \<and>
           opts p' = opts p \<and> Close_T p' = Close_T p"
proof (cases "closed p")
  case True
  then show ?thesis by (simp add: probe_closed Size_def)
next
  case nc: False
  show ?thesis
  proof (cases "Size p = Connections (opts p)")
    case True
    with nc show ?thesis by (simp add: probe_fast_path Size_def)
  next
    case False
    from probe_slow_path [OF nc False assms] obtain p' news where p':
      "probe p = Inr p'"
      "pool p' = (case Healthy (opts p) of None \<Rightarrow> pool p | Some h \<Rightarrow> filter h (pool p)) @ news"
      "length news \<le> nat (Connections (opts p) - Size p)"
      "opts p' = opts p" "Close_T p' = Close_T p"
      by blast
    have "length (case Healthy (opts p) of None \<Rightarrow> pool p | Some h \<Rightarrow> filter h (pool p))
            \<le> length (pool p)"
      by (simp split: option.splits)
    then have "int (length (pool p')) \<le> max (Size p) (Connections (opts p))"
      using p'(2,3) by (simp add: Size_def)
    then show ?thesis using p' by blast
  qed
qed

text \<open>
  Claim C1. The pass computes the deficit from the size it read before the health loop.
  With target 3 and the registry \<open>[1, 2]\<close>, connection 1 unhealthy: the pass evicts 1,
  the registry then has one entry, and the factory is invoked once (not twice); the pass
  ends with two connections.
\<close>

theorem probe_deficit_uses_size_before_eviction:
  "map_sum id (\<lambda>p. (pool p, closes p, connects p))
     (probe (example_pool (example_opts 3 (Some (\<lambda>c. c \<noteq> 1)) None) [1, 2] 0))
   = Inr ([2, 100], [1], 1)"
  by (simp add: example_defs step_defs upt_rec)




section \<open>Construction\<close>

lemma New_valid:
  assumes "validate options = None"
  shows "\<exists>p. New cl options s = Inr p \<and> opts p = options \<and> Close_T p = cl \<and>
           int (length (pool p)) \<le> Connections options \<and>
           \<not> closer p \<and> \<not> closed p \<and>
           ((\<forall>f. Connect options = Some f \<longrightarrow> (\<forall>s. \<exists>c s'. f s = (Inr c, s'))) \<longrightarrow>
              Size p = Connections options)"
proof -
  define p0 :: "('a, 'b) Pool" where "p0 = log_Debugf ''creating connection pool with %d connections''
       [IntArg (Connections options)]
       \<lparr>opts = options,
        logger = (case Logger options of None \<Rightarrow> DefaultLogger | Some l \<Rightarrow> l),
        pool = [], closer = False, closed = False, next_u64 = 0,
        Close_T = cl, ext = s, logs = [], closes = [], connects = 0,
        gauge = None, errors = 0, retrievals = 0\<rparr>"
  from assms obtain f where f: "Connect options = Some f"
    by (auto simp: validate_def split: if_splits)
  from assms have n: "1 \<le> Connections options"
    by (auto simp: validate_def split: if_splits)
  have new: "New cl options s = probe p0"
    using assms by (simp add: New_def connect_def p0_def)
  have a: "\<not> closed p0" "Size p0 \<noteq> Connections (opts p0)" "Connect (opts p0) = Some f"
    using n f by (simp_all add: p0_def Size_def log_Debugf_def)
  have b: "pool p0 = []" "opts p0 = options" "Close_T p0 = cl" "\<not> closer p0" "Size p0 = 0"
    by (simp_all add: p0_def Size_def log_Debugf_def)
  from probe_slow_path [OF a] obtain p' news where p':
    "probe p0 = Inr p'"
    "pool p' = (case Healthy (opts p0) of None \<Rightarrow> pool p0 | Some h \<Rightarrow> filter h (pool p0)) @ news"
    "length news \<le> nat (Connections (opts p0) - Size p0)"
    "(\<forall>s. \<exists>c s'. f s = (Inr c, s')) \<longrightarrow> length news = nat (Connections (opts p0) - Size p0)"
    "opts p' = opts p0" "closer p' = closer p0" "closed p' = closed p0" "Close_T p' = Close_T p0"
    by blast
  have pl: "pool p' = news" using p'(2) b(1) by (simp split: option.splits)
  have "int (length (pool p')) \<le> Connections options"
    using p'(3) pl b n by simp
  moreover have "(\<forall>f. Connect options = Some f \<longrightarrow> (\<forall>s. \<exists>c s'. f s = (Inr c, s'))) \<longrightarrow>
              Size p' = Connections options"
    using p'(4) pl b n f by (simp add: Size_def)
  ultimately show ?thesis using new p' a b by simp
qed

lemma New_cases:
  "(New cl options s = Inl (Failed ErrNoConnectFunc) \<longleftrightarrow> Connect options = None) \<and>
   (New cl options s = Inl (Failed ErrInvalidConnectionCount) \<longleftrightarrow>
      Connect options \<noteq> None \<and> Connections options < 1) \<and>
   (New cl options s = Inl (Failed ErrInvalidProbeInterval) \<longleftrightarrow>
      Connect options \<noteq> None \<and> 1 \<le> Connections options \<and> ProbeInterval options \<le> 0) \<and>
   ((\<exists>p. New cl options s = Inr p) \<longleftrightarrow>
      Connect options \<noteq> None \<and> 1 \<le> Connections options \<and> 0 < ProbeInterval options)"
proof (cases "validate options")
  case None
  from New_valid [OF None, of cl s] obtain p where "New cl options s = Inr p" by blast
  moreover from None have "Connect options \<noteq> None \<and> 1 \<le> Connections options \<and> 0 < ProbeInterval options"
    by (auto simp: validate_def split: if_splits)
  ultimately show ?thesis by auto
next
  case (Some e)
  then have "New cl options s = Inl (Failed e)" by (simp add: New_def)
  then show ?thesis using Some
    by (auto simp: validate_def split: if_splits)
qed

text \<open>
  Claim C6. Construction fails with \<open>ErrNoConnectFunc\<close> exactly when the connect
  factory is missing (whatever the other fields are), with
  \<open>ErrInvalidConnectionCount\<close> exactly when a factory is given and the count is zero or
  negative, with \<open>ErrInvalidProbeInterval\<close> exactly when factory and count are valid
  and the interval is not positive, and returns a pool in every other case. The health
  predicate, the logger and the metrics sink appear in none of the conditions, and
  replacing them by anything else (a missing one included) does not change whether a
  pool is returned. The checks are made in this order, and a failed construction
  returns no pool.
\<close>

theorem New_validation:
  "(New cl options s = Inl (Failed ErrNoConnectFunc) \<longleftrightarrow> Connect options = None) \<and>
   (New cl options s = Inl (Failed ErrInvalidConnectionCount) \<longleftrightarrow>
      Connect options \<noteq> None \<and> Connections options < 1) \<and>
   (New cl options s = Inl (Failed ErrInvalidProbeInterval) \<longleftrightarrow>
      Connect options \<noteq> None \<and> 1 \<le> Connections options \<and> ProbeInterval options \<le> 0) \<and>
   ((\<exists>p. New cl options s = Inr p) \<longleftrightarrow>
      Connect options \<noteq> None \<and> 1 \<le> Connections options \<and> 0 < ProbeInterval options) \<and>
   ((\<exists>p. New cl (options\<lparr>Healthy := h, Logger := l, Metrics := m\<rparr>) s = Inr p) \<longleftrightarrow>
      (\<exists>p. New cl options s = Inr p))"
  using New_cases [of cl options s]
    New_cases [of cl "options\<lparr>Healthy := h, Logger := l, Metrics := m\<rparr>" s]
  by simp

text \<open>
  The four cases of C6 at concrete configurations; the last one has neither a health
  predicate, nor a logger, nor metrics.
\<close>

theorem New_validation_witness:
  "New (\<lambda>_. None) ((example_opts 0 None None)\<lparr>Connect := None, ProbeInterval := 0\<rparr>) 0
     = Inl (Failed ErrNoConnectFunc) \<and>
   New (\<lambda>_. None) ((example_opts 0 None None)\<lparr>ProbeInterval := 0\<rparr>) 0
     = Inl (Failed ErrInvalidConnectionCount) \<and>
   New (\<lambda>_. None) ((example_opts 1 None None)\<lparr>ProbeInterval := 0\<rparr>) 0
     = Inl (Failed ErrInvalidProbeInterval) \<and>
   (\<exists>p. New (\<lambda>_. None) ((example_opts 1 None None)\<lparr>Logger := None\<rparr>) 0 = Inr p)"
  using
    New_validation [of "\<lambda>_. None" "(example_opts 0 None None)\<lparr>Connect := None, ProbeInterval := 0\<rparr>" 0]
    New_validation [of "\<lambda>_. None" "(example_opts 0 None None)\<lparr>ProbeInterval := 0\<rparr>" 0]
    New_validation [of "\<lambda>_. None" "(example_opts 1 None None)\<lparr>ProbeInterval := 0\<rparr>" 0]
    New_validation [of "\<lambda>_. None" "(example_opts 1 None None)\<lparr>Logger := None\<rparr>" 0]
  by (simp add: example_defs)

text \<open>
  Claim C7. Construction runs one pass before it returns: for a valid configuration
  whose connect factory succeeds in every state, the pool that \<^verbatim>\<open>New\<close> returns has
  \<^verbatim>\<open>Size()\<close> equal to the target count.
\<close>

theorem New_fills_pool:
  assumes "validate options = None" "Connect options = Some f"
    "\<forall>s. \<exists>c s'. f s = (Inr c, s')"
  shows "\<exists>p. New cl options s = Inr p \<and> Size p = Connections options"
  using New_valid [OF assms(1), of cl s] assms(2,3) by auto

text \<open>
  C7 at target 5.
\<close>

theorem New_fills_pool_witness:
  "validate (example_opts 5 None None) = None \<and>
   (\<exists>p. New (\<lambda>_. None) (example_opts 5 None None) 0 = Inr p \<and> Size p = 5)"
proof -
  have a: "validate (example_opts 5 None None) = None"
    "Connect (example_opts 5 None None) = Some (\<lambda>s. (Inr (100 + s), Suc s))"
    "\<forall>s. \<exists>c s'. (\<lambda>s. (Inr (100 + s), Suc s)) s = (Inr c :: string + nat, s')"
    by (simp_all add: example_defs validate_def)
  have "Connections (example_opts 5 None None) = 5" by (simp add: example_defs)
  then show ?thesis using New_fills_pool [OF a, of "\<lambda>_. None" 0] a(1) by simp
qed

section \<open>Retrieval\<close>

lemma sint_small:
  fixes n :: "64 word"
  assumes "unat n < 2 ^ 63"
  shows "sint n = int (unat n)"
proof -
  have "int (unat n) < int (2 ^ 63)" using assms by (rule iffD2 [OF of_nat_less_iff])
  then have "uint n < 2 ^ 63" by (simp only: uint_nat of_nat_power of_nat_numeral)
  moreover have "- (2 ^ 63) \<le> uint n"
  proof -
    have "(0::int) \<le> 2 ^ 63" by (rule zero_le_power) simp
    then have "- (2 ^ 63) \<le> (0::int)" by (simp only: neg_le_0_iff_le)
    moreover have "0 \<le> uint n" by (rule uint_ge_0)
    ultimately show ?thesis by (rule order_trans)
  qed
  ultimately have "signed_take_bit 63 (uint n) = uint n"
    by (simp only: signed_take_bit_int_eq_self)
  moreover have "sint n = signed_take_bit (LENGTH(64) - Suc 0) (uint n)"
    by (rule sint_uint)
  moreover have "LENGTH(64) - Suc 0 = 63" by simp
  ultimately show ?thesis by (simp only: uint_nat)
qed

lemma unat_succ:
  fixes c :: "64 word"
  assumes "unat c + 1 < 2 ^ 64"
  shows "unat (c + 1) = unat c + 1"
  using assms unat_add_lem [of c 1] by simp

lemma go_rem_nonneg: "0 \<le> a \<Longrightarrow> 0 < b \<Longrightarrow> go_rem a b = a mod b"
  by (cases "a = 0") (simp_all add: go_rem_def)

lemma index_of_small:
  assumes "unat n < 2 ^ 63" "0 < len"
  shows "index_of n len = int (unat n) mod len"
  using assms by (simp add: index_of_def sint_small go_rem_nonneg)

lemma Next_empty: "pool p = [] \<Longrightarrow> Next p = Inr ((None, False), p)"
  by (simp add: Next_def Size_def)

lemma ExNext_empty: "pool p = [] \<Longrightarrow> ExNext p = Inr ((None, False), p)"
  by (simp add: ExNext_def Size_def)

lemma Next_nonempty:
  assumes "pool p \<noteq> []" "Next p = Inr (r, p')"
  shows "\<exists>i<length (pool p). int i = index_of (next_u64 p + 1) (Size p) \<and>
           r = (Some (pool p ! i), True) \<and>
           p' = reportRetrieval (p\<lparr>next_u64 := next_u64 p + 1\<rparr>)"
proof -
  define ix where "ix = index_of (next_u64 p + 1) (Size p)"
  have ok: "0 \<le> ix \<and> ix < int (length (pool p))"
    using assms by (auto simp: Next_def Let_def Size_def ix_def split: if_splits)
  then have "nat ix < length (pool p)" "int (nat ix) = ix" by linarith+
  moreover have "r = (Some (pool p ! nat ix), True) \<and>
           p' = reportRetrieval (p\<lparr>next_u64 := next_u64 p + 1\<rparr>)"
    using assms ok by (auto simp: Next_def Let_def Size_def ix_def split: if_splits)
  ultimately show ?thesis unfolding ix_def by blast
qed

lemma ExNext_nonempty:
  assumes "pool p \<noteq> []" "ExNext p = Inr (r, p')"
  shows "\<exists>i<length (pool p). int i = index_of (next_u64 p + 1) (Size p) \<and>
           r = (Some (pool p ! i), True) \<and>
           p' = (reportRetrieval (p\<lparr>next_u64 := next_u64 p + 1\<rparr>))
                  \<lparr>pool := take i (pool p) @ drop (Suc i) (pool p)\<rparr>"
proof -
  define ix where "ix = index_of (next_u64 p + 1) (Size p)"
  have ok: "0 \<le> ix \<and> ix < int (length (pool p))"
    using assms by (auto simp: ExNext_def Let_def Size_def ix_def split: if_splits)
  then have "nat ix < length (pool p)" "int (nat ix) = ix" by linarith+
  moreover have "r = (Some (pool p ! nat ix), True) \<and>
           p' = (reportRetrieval (p\<lparr>next_u64 := next_u64 p + 1\<rparr>))
                  \<lparr>pool := take (nat ix) (pool p) @ drop (Suc (nat ix)) (pool p)\<rparr>"
    using assms ok
    by (auto simp: ExNext_def Let_def Size_def ix_def removeFromPool_def split: if_splits)
  ultimately show ?thesis unfolding ix_def by blast
qed

lemma Next_small:
  assumes "pool p \<noteq> []" "unat (next_u64 p) + 1 < 2 ^ 63"
  shows "Next p = Inr ((Some (pool p ! ((unat (next_u64 p) + 1) mod length (pool p))), True),
                       reportRetrieval (p\<lparr>next_u64 := next_u64 p + 1\<rparr>))"
proof -
  have u: "unat (next_u64 p + 1) = unat (next_u64 p) + 1"
    using assms(2) by (intro unat_succ) simp
  have l: "0 < Size p" using assms(1) by (simp add: Size_def)
  have ix: "index_of (next_u64 p + 1) (Size p) =
            int ((unat (next_u64 p) + 1) mod length (pool p))"
    using index_of_small [of "next_u64 p + 1" "Size p"] u assms(2) l
    by (simp add: Size_def zmod_int)
  have "(unat (next_u64 p) + 1) mod length (pool p) < length (pool p)"
    using assms(1) by simp
  then show ?thesis using assms(1) ix
    by (simp add: Next_def Let_def Size_def del: of_nat_add of_nat_Suc)
qed

lemma ExNext_small:
  assumes "pool p \<noteq> []" "unat (next_u64 p) + 1 < 2 ^ 63"
  shows "ExNext p =
     Inr ((Some (pool p ! ((unat (next_u64 p) + 1) mod length (pool p))), True),
          (reportRetrieval (p\<lparr>next_u64 := next_u64 p + 1\<rparr>))
            \<lparr>pool := take ((unat (next_u64 p) + 1) mod length (pool p)) (pool p) @
                     drop (Suc ((unat (next_u64 p) + 1) mod length (pool p))) (pool p)\<rparr>)"
proof -
  have u: "unat (next_u64 p + 1) = unat (next_u64 p) + 1"
    using assms(2) by (intro unat_succ) simp
  have l: "0 < Size p" using assms(1) by (simp add: Size_def)
  have ix: "index_of (next_u64 p + 1) (Size p) =
            int ((unat (next_u64 p) + 1) mod length (pool p))"
    using index_of_small [of "next_u64 p + 1" "Size p"] u assms(2) l
    by (simp add: Size_def zmod_int)
  have "(unat (next_u64 p) + 1) mod length (pool p) < length (pool p)"
    using assms(1) by simp
  then show ?thesis using assms(1) ix
    by (simp add: ExNext_def Let_def Size_def removeFromPool_def del: of_nat_add of_nat_Suc)
qed

text \<open>
  While the cursor stays below \<open>2 ^ 63\<close>, consecutive calls of \<^verbatim>\<open>Next\<close> return
  the registry positions \<open>(c + 1) mod N, (c + 2) mod N, \<dots>\<close> and leave the registry
  as it is; in \<open>2 * N\<close> calls every position comes exactly twice.
\<close>

lemma Next_n_round_robin:
  assumes "pool p \<noteq> []" "unat (next_u64 p) + k < 2 ^ 63"
  shows "\<exists>p'. Next_n k p =
           Inr (map (\<lambda>i. (Some (pool p ! (i mod length (pool p))), True))
                  [unat (next_u64 p) + 1..<unat (next_u64 p) + 1 + k], p') \<and>
           pool p' = pool p \<and> unat (next_u64 p') = unat (next_u64 p) + k"
  using assms
proof (induction k arbitrary: p)
  case 0
  then show ?case by simp
next
  case (Suc k)
  define p1 where "p1 = reportRetrieval (p\<lparr>next_u64 := next_u64 p + 1\<rparr>)"
  define a where "a = unat (next_u64 p) + 1"
  have small: "unat (next_u64 p) + 1 < 2 ^ 63" using Suc.prems(2) by simp
  have nx: "Next p = Inr ((Some (pool p ! (a mod length (pool p))), True), p1)"
    unfolding p1_def a_def using Suc.prems(1) small by (rule Next_small)
  have u: "unat (next_u64 p + 1) = a"
    unfolding a_def using small by (intro unat_succ) simp
  have p1: "pool p1 = pool p" "unat (next_u64 p1) = a"
    using u by (simp_all add: p1_def)
  have "pool p1 \<noteq> []" "unat (next_u64 p1) + k < 2 ^ 63"
    using Suc.prems p1 by (simp_all add: a_def)
  from Suc.IH [OF this] obtain p' where p':
    "Next_n k p1 =
       Inr (map (\<lambda>i. (Some (pool p1 ! (i mod length (pool p1))), True))
              [unat (next_u64 p1) + 1..<unat (next_u64 p1) + 1 + k], p')"
    "pool p' = pool p1" "unat (next_u64 p') = unat (next_u64 p1) + k"
    by blast
  have idx: "[a..<a + Suc k] = a # [a + 1..<a + 1 + k]"
    using upt_conv_Cons [of a "a + Suc k"] by simp
  have "Next_n (Suc k) p =
          Inr (map (\<lambda>i. (Some (pool p ! (i mod length (pool p))), True)) [a..<a + Suc k], p')"
    unfolding idx using nx p'(1) p1 by simp
  then show ?case using p' p1 by (simp add: a_def)
qed

lemma count_eq_upt: "length (filter (\<lambda>i. i = j) [0..<n]) = (if j < n then 1 else 0)"
  by (induction n) auto

lemma count_residue_window:
  assumes "j < n"
  shows "length (filter (\<lambda>i. i mod n = j) [a..<a + n]) = 1"
proof (induction a)
  case 0
  have "filter (\<lambda>i. i mod n = j) [0..<n] = filter (\<lambda>i. i = j) [0..<n]"
    by (rule filter_cong) simp_all
  then show ?case using assms by (simp add: count_eq_upt)
next
  case (Suc a)
  define xs where "xs = [Suc a..<a + n]"
  have n: "0 < n" using assms by simp
  have l: "[a..<a + n] = a # xs"
    unfolding xs_def using n by (intro upt_conv_Cons) simp
  have r: "[Suc a..<Suc a + n] = xs @ [a + n]"
    unfolding xs_def using n upt_Suc_append [of "Suc a" "a + n"] by simp
  have "length (filter (\<lambda>i. i mod n = j) (a # xs)) = 1"
    using Suc.IH by (simp only: l)
  moreover have "length (filter (\<lambda>i. i mod n = j) (xs @ [a + n])) =
                 length (filter (\<lambda>i. i mod n = j) (a # xs))"
    by simp
  ultimately show ?case by (simp only: r)
qed

lemma count_residue_two_windows:
  assumes "j < n"
  shows "length (filter (\<lambda>i. i mod n = j) [a..<a + 2 * n]) = 2"
proof -
  have "[a..<a + 2 * n] = [a..<a + n] @ [a + n..<a + n + n]"
    using upt_add_eq_append [of a "a + n" n] by (simp add: mult_2 add.assoc)
  then show ?thesis
    using count_residue_window [OF assms, of a] count_residue_window [OF assms, of "a + n"]
    by simp
qed

lemma Next_round_robin_below_2_63:
  assumes "pool p \<noteq> []" "unat (next_u64 p) + 2 * length (pool p) < 2 ^ 63"
  shows "\<exists>p'. Next_n (2 * length (pool p)) p =
           Inr (map (\<lambda>i. (Some (pool p ! (i mod length (pool p))), True))
                  [unat (next_u64 p) + 1..<unat (next_u64 p) + 1 + 2 * length (pool p)], p') \<and>
           pool p' = pool p \<and>
           (\<forall>j<length (pool p).
              length (filter (\<lambda>i. i mod length (pool p) = j)
                [unat (next_u64 p) + 1..<unat (next_u64 p) + 1 + 2 * length (pool p)]) = 2)"
  using Next_n_round_robin [OF assms] count_residue_two_windows by blast

text \<open>
  Claim C3. \<^verbatim>\<open>Next\<close> computes \<^verbatim>\<open>int(n) % len\<close>: once the incremented cursor
  reaches \<open>2 ^ 63\<close> the signed value is negative and so is the remainder. On a pool
  of two connections whose cursor is \<open>2 ^ 63\<close> the call does not return the connection
  at position \<open>cursor mod 2\<close>: it panics with an index out of range.
\<close>

theorem Next_panics_on_high_cursor:
  "Next (example_pool (example_opts 2 None None) [1, 2] (2 ^ 63)) = Inl IndexOutOfRange"
  by (simp add: retrieval_defs example_defs)

text \<open>
  Claim C10. For the incremented cursor \<open>2 ^ 63 + 1\<close> and a registry of size 2
  the computed index is \<open>-1\<close>, outside \<open>[0, 2)\<close>, and the indexed access of
  \<^verbatim>\<open>ExNext\<close> panics. Where \<^verbatim>\<open>int\<close> has 32 bits the index is \<open>-1\<close> already
  for the incremented cursor \<open>2 ^ 31 + 1\<close>.
\<close>

theorem index_negative_on_high_cursor:
  "index_of (2 ^ 63 + 1) 2 = - 1 \<and>
   ExNext (example_pool (example_opts 2 None None) [1, 2] (2 ^ 63)) = Inl IndexOutOfRange \<and>
   index_of_32 (2 ^ 31 + 1) 2 = - 1"
  by (simp add: retrieval_defs example_defs index_of_32_def)





text \<open>
  Claim C8, as stated, fails: with a retrievals counter configured, \<^verbatim>\<open>Next\<close> and
  \<^verbatim>\<open>ExNext\<close> on an empty pool return the absence result before the counter is
  reached; the state, and with it the counter, is unchanged.
\<close>

theorem empty_pool_retrieval_not_counted:
  "Next (example_pool (example_opts 2 None (Some all_metrics)) [] 0)
     = Inr ((None, False), example_pool (example_opts 2 None (Some all_metrics)) [] 0) \<and>
   ExNext (example_pool (example_opts 2 None (Some all_metrics)) [] 0)
     = Inr ((None, False), example_pool (example_opts 2 None (Some all_metrics)) [] 0) \<and>
   retrievals (example_pool (example_opts 2 None (Some all_metrics)) [] 0) = 0"
  by (simp add: retrieval_defs example_defs)

text \<open>
  Claim C8, amended. With a retrievals counter configured, a call of \<^verbatim>\<open>Next\<close> or
  \<^verbatim>\<open>ExNext\<close> that returns finds a connection exactly when the registry is not
  empty; it then has incremented the counter by exactly 1, and has left it unchanged
  when it returns the absence result.
\<close>

theorem retrievals_counted_on_success:
  assumes "Metrics (opts p) = Some m" "mRetrievals m"
  shows "(Next p = Inr ((r, ok), p') \<longrightarrow>
            ok = (pool p \<noteq> []) \<and> retrievals p' = retrievals p + (if ok then 1 else 0)) \<and>
         (ExNext p = Inr ((r, ok), p') \<longrightarrow>
            ok = (pool p \<noteq> []) \<and> retrievals p' = retrievals p + (if ok then 1 else 0))"
proof (cases "pool p = []")
  case True
  then show ?thesis by (auto simp: Next_empty ExNext_empty)
next
  case False
  have "retrievals (reportRetrieval (p\<lparr>next_u64 := next_u64 p + 1\<rparr>)) = retrievals p + 1"
    using assms by (simp add: reportRetrieval_def)
  then show ?thesis
    using Next_nonempty [OF False, of "(r, ok)" p'] ExNext_nonempty [OF False, of "(r, ok)" p'] False
    by auto
qed

text \<open>
  The amended C8 on the registry \<open>[1, 2]\<close>.
\<close>

theorem retrievals_counted_on_success_witness:
  "(\<exists>p'. Next (example_pool (example_opts 2 None (Some all_metrics)) [1, 2] 0)
           = Inr ((Some 2, True), p') \<and> retrievals p' = 1) \<and>
   (\<exists>p'. ExNext (example_pool (example_opts 2 None (Some all_metrics)) [1, 2] 0)
           = Inr ((Some 2, True), p') \<and> retrievals p' = 1)"
proof -
  let ?p = "example_pool (example_opts 2 None (Some all_metrics)) [1, 2] 0"
  have a: "Metrics (opts ?p) = Some all_metrics" "mRetrievals all_metrics"
    by (simp_all add: example_defs)
  obtain p1 where n: "Next ?p = Inr ((Some 2, True), p1)"
    by (simp add: retrieval_defs example_defs)
  obtain p2 where e: "ExNext ?p = Inr ((Some 2, True), p2)"
    by (simp add: retrieval_defs example_defs)
  have r: "retrievals ?p = 0" by (simp add: example_defs)
  from retrievals_counted_on_success [OF a, of "Some 2" True p1] n r
  have "retrievals p1 = 1" by simp
  moreover from retrievals_counted_on_success [OF a, of "Some 2" True p2] e r
  have "retrievals p2 = 1" by simp
  ultimately show ?thesis using n e by blast
qed

section \<open>Sequences of operations\<close>

text \<open>
  Every operation keeps the channel empty until \<^verbatim>\<open>Close\<close> has run: on a pool made by
  \<^verbatim>\<open>New\<close>, the send of the first \<^verbatim>\<open>Close\<close> finds room in the channel.
\<close>

lemma Close_channel_ok:
  assumes "Close p = Inr p'" "channel_ok p"
  shows "channel_ok p'"
proof (cases "closer p")
  case True
  with assms show ?thesis by (simp add: Close_def)
next
  case False
  with assms(2) have nc: "\<not> closed p" by (auto simp: channel_ok_def split: if_splits)
  from Close_first [OF False nc] assms show ?thesis by (auto simp: channel_ok_def)
qed

lemma probe_channel_ok:
  assumes "probe p = Inr p'" "channel_ok p"
  shows "channel_ok p'"
proof (cases "closed p")
  case True
  with assms show ?thesis by (auto simp: probe_closed channel_ok_def)
next
  case nc: False
  from assms(2) obtain f where f: "Connect (opts p) = Some f"
    by (auto simp: channel_ok_def)
  show ?thesis
  proof (cases "Size p = Connections (opts p)")
    case True
    with nc assms show ?thesis by (auto simp: probe_fast_path channel_ok_def)
  next
    case False
    from probe_slow_path [OF nc False f] assms show ?thesis
      by (auto simp: channel_ok_def)
  qed
qed

lemma exec_op_channel_ok:
  assumes "exec_op x (p, out) = Inr (p', out')" "channel_ok p"
  shows "channel_ok p'"
proof (cases x)
  case OpNext
  then obtain r where n: "Next p = Inr (r, p')"
    using assms(1) by (auto split: sum.splits)
  show ?thesis
  proof (cases "pool p = []")
    case True
    with n assms(2) show ?thesis by (simp add: Next_empty)
  next
    case False
    from Next_nonempty [OF False n] assms(2) show ?thesis by (auto simp: channel_ok_def)
  qed
next
  case OpExNext
  then obtain r where n: "ExNext p = Inr (r, p')"
    using assms(1) by (auto split: sum.splits)
  show ?thesis
  proof (cases "pool p = []")
    case True
    with n assms(2) show ?thesis by (simp add: ExNext_empty)
  next
    case False
    from ExNext_nonempty [OF False n] assms(2) show ?thesis by (auto simp: channel_ok_def)
  qed
next
  case (OpReturn c)
  with assms show ?thesis by (auto simp: channel_ok_def)
next
  case OpProbe
  then have "probe p = Inr p'" using assms(1) by (auto split: sum.splits)
  then show ?thesis using assms(2) by (rule probe_channel_ok)
next
  case OpClose
  then have "Close p = Inr p'" using assms(1) by (auto split: sum.splits)
  then show ?thesis using assms(2) by (rule Close_channel_ok)
qed

lemma run_channel_ok:
  assumes "run xs st = Inr st'" "channel_ok (fst st)"
  shows "channel_ok (fst st')"
  using assms
proof (induction xs arbitrary: st)
  case Nil
  then show ?case by simp
next
  case (Cons x xs)
  from Cons.prems(1) obtain st1 where e: "exec_op x st = Inr st1" and r: "run xs st1 = Inr st'"
    by (auto split: sum.splits)
  have "channel_ok (fst st1)"
    using exec_op_channel_ok [of x "fst st" "snd st" "fst st1" "snd st1"] e Cons.prems(2)
    by simp
  from Cons.IH [OF r this] show ?case .
qed

lemma first_Close_never_blocks:
  assumes "New cl options s = Inr p0" "run xs (p0, out0) = Inr (p, out)" "\<not> closer p"
  shows "\<not> closed p"
proof -
  have v: "validate options = None"
    using assms(1) by (cases "validate options") (simp_all add: New_def)
  from New_valid [OF v, of cl s] assms(1) have "opts p0 = options" "\<not> closed p0" by auto
  moreover from v have "Connect options \<noteq> None"
    by (auto simp: validate_def split: if_splits)
  ultimately have "channel_ok p0" by (simp add: channel_ok_def)
  from run_channel_ok [OF assms(2)] this have "channel_ok p" by simp
  then show ?thesis using assms(3) by (auto simp: channel_ok_def split: if_splits)
qed

lemma exec_op_within_target:
  assumes "within_target t (p, out)" "allowed True x out" "exec_op x (p, out) = Inr (p', out')"
  shows "within_target t (p', out')"
proof (cases x)
  case OpNext
  then obtain r where n: "Next p = Inr (r, p')" and o: "out' = out"
    using assms(3) by (auto split: sum.splits)
  have "opts p' = opts p \<and> pool p' = pool p"
  proof (cases "pool p = []")
    case True
    with n show ?thesis by (simp add: Next_empty)
  next
    case False
    from Next_nonempty [OF False n] show ?thesis by auto
  qed
  then show ?thesis using assms(1) o by (simp add: within_target_def)
next
  case OpExNext
  then obtain r ok where n: "ExNext p = Inr ((r, ok), p')"
    and o: "out' = (case r of None \<Rightarrow> out | Some c \<Rightarrow> if ok then c # out else out)"
    using assms(3) by (auto split: sum.splits)
  show ?thesis
  proof (cases "pool p = []")
    case True
    with n o have "p' = p" "out' = out" by (simp_all add: ExNext_empty)
    then show ?thesis using assms(1) by simp
  next
    case False
    from ExNext_nonempty [OF False n] obtain i where i:
      "i < length (pool p)" "r = Some (pool p ! i)" "ok"
      "p' = (reportRetrieval (p\<lparr>next_u64 := next_u64 p + 1\<rparr>))
              \<lparr>pool := take i (pool p) @ drop (Suc i) (pool p)\<rparr>"
      by auto
    have "opts p' = opts p" "int (length (pool p')) = int (length (pool p)) - 1"
      "length out' = Suc (length out)"
      using i o by simp_all
    then show ?thesis using assms(1) by (simp add: within_target_def)
  qed
next
  case (OpReturn c)
  then have c: "c \<in> set out" "p' = Return p c" "out' = remove1 c out"
    using assms(2,3) by auto
  then have "length out' = length out - 1" "0 < length out"
    by (auto simp: length_remove1)
  then have "int (length out') = int (length out) - 1" by linarith
  then show ?thesis using assms(1) c(2) by (simp add: within_target_def)
next
  case OpProbe
  then have o: "out = []" "out' = out" and pr: "probe p = Inr p'"
    using assms(2,3) by (auto split: sum.splits)
  from assms(1) obtain f where f: "Connect (opts p) = Some f"
    by (auto simp: within_target_def)
  from probe_bound [OF f] pr have
    "int (length (pool p')) \<le> max (Size p) (Connections (opts p))" "opts p' = opts p"
    by auto
  then show ?thesis using assms(1) o by (auto simp: within_target_def Size_def)
next
  case OpClose
  then have o: "out' = out" and c: "Close p = Inr p'"
    using assms(3) by (auto split: sum.splits)
  from Close_shrinks [OF c] show ?thesis using assms(1) o by (auto simp: within_target_def)
qed

lemma run_within_target:
  assumes "within_target t st" "in_contract True xs st" "run xs st = Inr st'"
  shows "within_target t st'"
  using assms
proof (induction xs arbitrary: st)
  case Nil
  then show ?case by simp
next
  case (Cons x xs)
  obtain p out where st: "st = (p, out)" by (cases st)
  from Cons.prems(3) obtain st1 where e: "exec_op x st = Inr st1" and r: "run xs st1 = Inr st'"
    by (auto split: sum.splits)
  obtain p1 out1 where st1: "st1 = (p1, out1)" by (cases st1)
  from Cons.prems(2) e have a: "allowed True x out" and rs: "in_contract True xs st1"
    by (simp_all add: st)
  have "within_target t st1"
    using exec_op_within_target [of t p out x p1 out1] Cons.prems(1) a e
    by (simp add: st st1)
  from Cons.IH [OF this rs r] show ?case .
qed

lemma in_contract_take: "in_contract q xs st \<Longrightarrow> in_contract q (take k xs) st"
proof (induction xs arbitrary: st k)
  case Nil
  then show ?case by simp
next
  case (Cons x xs)
  show ?case
  proof (cases k)
    case 0
    then show ?thesis by simp
  next
    case (Suc k')
    then show ?thesis using Cons by (auto split: sum.splits)
  qed
qed

lemma New_example: "New (\<lambda>_. None) (example_opts 2 None None) 0 = Inr fresh_pool"
  by (simp add: New_def validate_def connect_def DefaultLogger_def NullLogger_def
        fresh_pool_def example_defs step_defs eval_nat_numeral)

lemma fresh_pool_ExNext: "exec_op OpExNext (fresh_pool, []) = Inr (fresh_pool\<lparr>next_u64 := 1, pool := [100]\<rparr>, [101])"
  by (simp add: fresh_pool_def example_defs retrieval_defs)

lemma fresh_pool_probe: "exec_op OpProbe (fresh_pool\<lparr>next_u64 := 1, pool := [100]\<rparr>, [101])
   = Inr (fresh_pool\<lparr>next_u64 := 1, pool := [100, 102], ext := 3, connects := 3,
                      logs := logs fresh_pool @ [Debugf ''probing connection pool'' []]\<rparr>, [101])"
  by (simp add: fresh_pool_def example_defs step_defs)

text \<open>
  Claim C9, as stated, fails. Target 2: \<^verbatim>\<open>ExNext\<close> takes connection 101 out, a pass
  refills the registry to \<open>[100, 102]\<close>, and the \<^verbatim>\<open>Return\<close> of 101, which the
  caller contract allows, makes the registry three long.
\<close>

theorem registry_exceeds_target_after_Return:
  "New (\<lambda>_. None) (example_opts 2 None None) 0 = Inr fresh_pool \<and>
   Connections (example_opts 2 None None) = 2 \<and>
   in_contract False [OpExNext, OpProbe, OpReturn 101] (fresh_pool, []) \<and>
   map_sum id (\<lambda>st. Size (fst st)) (run [OpExNext, OpProbe, OpReturn 101] (fresh_pool, []))
     = Inr 3"
proof -
  have r3: "exec_op (OpReturn 101)
              (fresh_pool\<lparr>next_u64 := 1, pool := [100, 102], ext := 3, connects := 3,
                      logs := logs fresh_pool @ [Debugf ''probing connection pool'' []]\<rparr>, [101])
            = Inr (fresh_pool\<lparr>next_u64 := 1, pool := [100, 102, 101], ext := 3, connects := 3,
                      logs := logs fresh_pool @ [Debugf ''probing connection pool'' []]\<rparr>, [])"
    by (simp add: Return_def)
  have "Connections (example_opts 2 None None) = 2" by (simp add: example_opts_def)
  moreover have "in_contract False [OpExNext, OpProbe, OpReturn 101] (fresh_pool, [])"
    by (simp add: fresh_pool_ExNext fresh_pool_probe r3 del: exec_op.simps)
  moreover have "map_sum id (\<lambda>st. Size (fst st))
        (run [OpExNext, OpProbe, OpReturn 101] (fresh_pool, [])) = Inr 3"
    by (simp add: fresh_pool_ExNext fresh_pool_probe r3 Size_def del: exec_op.simps)
  ultimately show ?thesis using New_example by simp
qed

text \<open>
  Claim C9, amended. For a pool constructed with target count \<open>T\<close> and every
  sequence of \<^verbatim>\<open>Next\<close>, \<^verbatim>\<open>ExNext\<close>, \<^verbatim>\<open>Return\<close>, \<^verbatim>\<open>Close\<close> and passes that
  respects the caller contract and in which no pass runs while a connection is checked
  out, the registry length is within \<open>[0, T]\<close> after every operation (after every
  prefix \<open>take k xs\<close> of the sequence that ran without a panic).
\<close>

theorem registry_within_target:
  assumes "New cl options s = Inr p0" "in_contract True xs (p0, [])"
    "run (take k xs) (p0, []) = Inr (p, out)"
  shows "0 \<le> Size p \<and> Size p \<le> Connections options"
proof -
  have v: "validate options = None"
    using assms(1) by (cases "validate options") (simp_all add: New_def)
  from New_valid [OF v, of cl s] assms(1) have
    "opts p0 = options" "int (length (pool p0)) \<le> Connections options"
    by auto
  moreover from v have "Connect options \<noteq> None"
    by (auto simp: validate_def split: if_splits)
  ultimately have "within_target (Connections options) (p0, [])"
    by (simp add: within_target_def)
  from run_within_target [OF this in_contract_take [OF assms(2)] assms(3)]
  show ?thesis by (simp add: within_target_def Size_def)
qed

text \<open>
  The amended C9 on a sequence that checks a connection out, returns it, and then has
  a pass and a shared retrieval.
\<close>

theorem registry_within_target_witness:
  "New (\<lambda>_. None) (example_opts 2 None None) 0 = Inr fresh_pool \<and>
   in_contract True [OpExNext, OpReturn 101, OpProbe, OpNext] (fresh_pool, []) \<and>
   (\<exists>p out. run (take 4 [OpExNext, OpReturn 101, OpProbe, OpNext]) (fresh_pool, []) = Inr (p, out) \<and>
      0 \<le> Size p \<and> Size p \<le> 2)"
proof -
  let ?xs = "[OpExNext, OpReturn 101, OpProbe, OpNext]"
  have r2: "exec_op (OpReturn 101) (fresh_pool\<lparr>next_u64 := 1, pool := [100]\<rparr>, [101])
            = Inr (fresh_pool\<lparr>next_u64 := 1, pool := [100, 101]\<rparr>, [])"
    by (simp add: Return_def)
  have r3: "exec_op OpProbe (fresh_pool\<lparr>next_u64 := 1, pool := [100, 101]\<rparr>, [])
            = Inr (fresh_pool\<lparr>next_u64 := 1, pool := [100, 101],
                     logs := logs fresh_pool @ [Debugf ''probing connection pool'' []]\<rparr>, [])"
    by (simp add: fresh_pool_def example_defs step_defs)
  have r4: "exec_op OpNext (fresh_pool\<lparr>next_u64 := 1, pool := [100, 101],
                     logs := logs fresh_pool @ [Debugf ''probing connection pool'' []]\<rparr>, [])
            = Inr (fresh_pool\<lparr>next_u64 := 2, pool := [100, 101],
                     logs := logs fresh_pool @ [Debugf ''probing connection pool'' []]\<rparr>, [])"
    by (simp add: fresh_pool_def example_defs retrieval_defs)
  have c: "in_contract True ?xs (fresh_pool, [])"
    by (simp add: fresh_pool_ExNext r2 r3 r4 del: exec_op.simps)
  have r: "run (take 4 ?xs) (fresh_pool, [])
            = Inr (fresh_pool\<lparr>next_u64 := 2, pool := [100, 101],
                     logs := logs fresh_pool @ [Debugf ''probing connection pool'' []]\<rparr>, [])"
    by (simp add: fresh_pool_ExNext r2 r3 r4 del: exec_op.simps)
  have "Connections (example_opts 2 None None) = 2" by (simp add: example_opts_def)
  with registry_within_target [OF New_example c r] c r New_example show ?thesis by simp
qed

end
